theory Spec2Isabelle
  imports Main
begin

section \<open>Python values and exceptions\<close>

text \<open>
  The first element of an exception's \<open>args\<close> tuple, as far as the listener inspects it:
  either a dict, of which only \<open>err.get("code")\<close> is read (the integer stored under
  \<open>"code"\<close>, or nothing when the key is missing or holds no integer), or any other value.
\<close>

datatype err_arg = ArgDict "int option" | ArgOther

text \<open>
  Exceptions. All of them derive from Python's \<open>Exception\<close>, so \<open>except Exception\<close>
  catches each one; only \<open>ValueError\<close> is caught by \<open>except ValueError\<close>.
\<close>

datatype py_error =
    ValueError "err_arg list"
  | IndexError
  | KeyError string
  | OtherException string

subsection \<open>The builtins \<open>int\<close> and \<open>str\<close>\<close>

text \<open>
  What \<open>int(val)\<close> answers depends on the type of the value the cache returns and on
  the interpreter, so the cursor functions below take it as a parameter \<open>to_int\<close>, and
  the theorems about them hold for every such function. The examples use \<open>decimal_int\<close>:
  \<open>int\<close> on a string of code points below 256, as CPython 3.11 and later answer with
  their default settings. Whitespace around the literal is skipped (code points 9 to 13
  and 32, and the non-ASCII spaces 133 and 160), a sign may follow, then decimal digits,
  each of which may be preceded by a single underscore; a literal of more than 4300
  digits is refused.
\<close>

definition is_space :: "char \<Rightarrow> bool" where
  "is_space c = (of_char c \<in> {9, 10, 11, 12, 13, 32, 133, 160 :: nat})"

definition strip :: "string \<Rightarrow> string" where
  "strip s = rev (dropWhile is_space (rev (dropWhile is_space s)))"

definition digit_of :: "char \<Rightarrow> int option" where
  "digit_of c = (let n = (of_char c :: nat) in if 48 \<le> n \<and> n \<le> 57 then Some (int n - 48) else None)"

fun after_digit :: "int \<Rightarrow> string \<Rightarrow> int option" where
  "after_digit acc [] = Some acc"
| "after_digit acc (c # cs) =
     (if c = CHR ''_'' then
        (case cs of
           [] \<Rightarrow> None
         | d # ds \<Rightarrow> (case digit_of d of None \<Rightarrow> None | Some v \<Rightarrow> after_digit (acc * 10 + v) ds))
      else (case digit_of c of None \<Rightarrow> None | Some v \<Rightarrow> after_digit (acc * 10 + v) cs))"

definition unsigned_int :: "string \<Rightarrow> int option" where
  "unsigned_int s =
     (case s of
        [] \<Rightarrow> None
      | c # cs \<Rightarrow> (case digit_of c of None \<Rightarrow> None | Some v \<Rightarrow> after_digit v cs))"

definition decimal_int :: "string \<Rightarrow> py_error + int" where
  "decimal_int val =
     (let parsed =
        (case strip val of
           [] \<Rightarrow> None
         | c # cs \<Rightarrow>
             if c = CHR ''-'' then map_option uminus (unsigned_int cs)
             else if c = CHR ''+'' then unsigned_int cs
             else unsigned_int (c # cs))
      in case parsed of
           None \<Rightarrow> Inl (ValueError [ArgOther])
         | Some n \<Rightarrow>
             if length (filter (\<lambda>c. digit_of c \<noteq> None) val) > 4300 then Inl (ValueError [ArgOther])
             else Inr n)"

definition digit_char :: "nat \<Rightarrow> char" where
  "digit_char d = char_of (48 + d)"

function nat_digits :: "nat \<Rightarrow> string" where
  "nat_digits n = (if n < 10 then [digit_char n] else nat_digits (n div 10) @ [digit_char (n mod 10)])"
  by pat_completeness auto
termination
  by (relation "measure id") auto

declare nat_digits.simps [simp del]

text \<open>\<open>str(n)\<close> for an integer \<open>n\<close>.\<close>

definition py_str :: "int \<Rightarrow> string" where
  "py_str n = (if n < 0 then CHR ''-'' # nat_digits (nat (- n)) else nat_digits (nat n))"

section \<open>The cache\<close>

text \<open>
  Modelled from the spec: the cache object handed to the cursor functions (its \<open>get\<close>
  and \<open>set\<close> methods) is an external collaborator and not part of the source. The spec
  describes it as a key/value persistence abstraction whose operations can fail when the
  store is unavailable. It is modelled as the stored entries together with the exception,
  if any, that \<open>get\<close> and \<open>set\<close> currently raise; a \<open>set\<close> that raises stores nothing.
\<close>

record cache =
  entries :: "string \<rightharpoonup> string"
  get_fault :: "py_error option"
  set_fault :: "py_error option"

definition cache_get :: "cache \<Rightarrow> string \<Rightarrow> py_error + string option" where
  "cache_get c key = (case get_fault c of Some e \<Rightarrow> Inl e | None \<Rightarrow> Inr (entries c key))"

definition cache_set :: "cache \<Rightarrow> string \<Rightarrow> string \<Rightarrow> py_error + cache" where
  "cache_set c key val =
     (case set_fault c of
        Some e \<Rightarrow> Inl e
      | None \<Rightarrow> Inr (c\<lparr>entries := (entries c)(key \<mapsto> val)\<rparr>))"

section \<open>The cursor store\<close>

text \<open>What the program prints.\<close>

datatype message =
    Listening string nat int
  | PrunedWarning string int
  | ListenerError string py_error
  | SaveFailed string py_error

text \<open>
  \<open>load_last_block\<close>: the body of the \<open>try\<close> is the lookup followed by \<open>int(val)\<close>
  when the value is not \<open>None\<close>; \<open>except Exception: pass\<close> falls through to
  \<open>return default\<close>.
\<close>

definition load_try :: "(string \<Rightarrow> py_error + int) \<Rightarrow> string \<Rightarrow> cache \<Rightarrow> py_error + int option" where
  "load_try to_int key c =
     (case cache_get c key of
        Inl e \<Rightarrow> Inl e
      | Inr None \<Rightarrow> Inr None
      | Inr (Some val) \<Rightarrow> (case to_int val of Inl e \<Rightarrow> Inl e | Inr n \<Rightarrow> Inr (Some n)))"

definition load_last_block :: "(string \<Rightarrow> py_error + int) \<Rightarrow> string \<Rightarrow> int \<Rightarrow> cache \<Rightarrow> py_error + int" where
  "load_last_block to_int key dflt c =
     (case load_try to_int key c of
        Inr (Some n) \<Rightarrow> Inr n
      | Inr None \<Rightarrow> Inr dflt
      | Inl e \<Rightarrow> Inr dflt)"

text \<open>\<open>reset_last_block\<close>: one unguarded \<open>cache.set\<close>.\<close>

definition reset_last_block :: "string \<Rightarrow> int \<Rightarrow> cache \<Rightarrow> py_error + cache" where
  "reset_last_block key new_value c = cache_set c key (py_str new_value)"

text \<open>
  \<open>save_last_block\<close>: the same \<open>cache.set\<close> inside \<open>try\<close>; the handler prints the
  failure. The result is the cache afterwards and the messages printed.
\<close>

definition save_last_block :: "string \<Rightarrow> int \<Rightarrow> cache \<Rightarrow> py_error + cache \<times> message list" where
  "save_last_block key block_number c =
     (case cache_set c key (py_str block_number) of
        Inr c' \<Rightarrow> Inr (c', [])
      | Inl e \<Rightarrow> Inr (c, [SaveFailed key e]))"

section \<open>The listener\<close>

text \<open>
  A log as the listener reads it. \<open>transactionHash\<close> holds the hash in the form
  \<open>ev['transactionHash'].hex()\<close> returns it (the conversion is injective).
\<close>

record log =
  transactionHash :: string
  logIndex :: int
  blockNumber :: int

record contract =
  address :: string
  abi :: string

type_synonym dedupe_key = "string \<times> string \<times> int"

text \<open>The calls the listener makes to the outside, in the order it makes them.\<close>

datatype action =
    ReadBlockNumber
  | GetLogs string string int int
  | Handler log
  | SaveLastBlock string int
  | Print message
  | Sleep nat

text \<open>
  The listener's variables (\<open>seen_logs\<close>, \<open>last_block\<close>), the cache it writes to, and
  the calls made so far.
\<close>

record lstate =
  seen_logs :: "dedupe_key set"
  last_block :: int
  cache_entries :: "string \<rightharpoonup> string"
  trace :: "action list"

text \<open>
  What the outside answers during one pass of the \<open>while True\<close> loop: the chain height,
  the result of each \<open>get_logs\<close> call (by registry, event name and range), whether the
  handler raises on a log, and whether \<open>cache.set\<close> raises.
\<close>

record tick_env =
  block_number :: "py_error + int"
  get_logs :: "string \<times> contract \<Rightarrow> string \<Rightarrow> int \<Rightarrow> int \<Rightarrow> py_error + log list"
  handler :: "log \<Rightarrow> py_error option"
  cache_set_fault :: "py_error option"

definition log_key :: "string \<Rightarrow> log \<Rightarrow> dedupe_key" where
  "log_key network ev = (network, transactionHash ev, logIndex ev)"

definition emit :: "action \<Rightarrow> lstate \<Rightarrow> lstate" where
  "emit a s = s\<lparr>trace := trace s @ [a]\<rparr>"

text \<open>The loop \<open>for ev in logs\<close>: the key is added to \<open>seen_logs\<close>, then the handler runs.\<close>

fun dispatch_logs :: "string \<Rightarrow> (log \<Rightarrow> py_error option) \<Rightarrow> log list \<Rightarrow> lstate \<Rightarrow> py_error option \<times> lstate" where
  "dispatch_logs network h [] s = (None, s)"
| "dispatch_logs network h (ev # logs) s =
     (if log_key network ev \<in> seen_logs s then dispatch_logs network h logs s
      else
        (case h ev of
           Some e \<Rightarrow> (Some e, emit (Handler ev) (s\<lparr>seen_logs := insert (log_key network ev) (seen_logs s)\<rparr>))
         | None \<Rightarrow>
             dispatch_logs network h logs
               (emit (Handler ev) (s\<lparr>seen_logs := insert (log_key network ev) (seen_logs s)\<rparr>))))"

text \<open>The test of the \<open>except ValueError\<close> clause on \<open>err = e.args[0]\<close>.\<close>

fun is_pruned :: "err_arg \<Rightarrow> bool" where
  "is_pruned (ArgDict code) = (code = Some (- 32000))"
| "is_pruned ArgOther = False"

text \<open>
  How a failed \<open>get_logs\<close> leaves the \<open>try\<close>: \<open>None\<close> when the clause ends in
  \<open>continue\<close>, otherwise the exception that goes on to the outer \<open>try\<close>. With an empty
  \<open>args\<close> the subscript \<open>e.args[0]\<close> raises \<open>IndexError\<close> inside the clause.
\<close>

fun except_value_error :: "py_error \<Rightarrow> py_error option" where
  "except_value_error (ValueError []) = Some IndexError"
| "except_value_error (ValueError (err # rest)) =
     (if is_pruned err then None else Some (ValueError (err # rest)))"
| "except_value_error e = Some e"

text \<open>The list of subscribed events of the inner \<open>for\<close> loop; every one has \<open>ev_func\<close> as handler.\<close>

definition subscribed_events :: "string list" where
  "subscribed_events = [''PostProof'']"

text \<open>The inner loop \<open>for event_name, handler in [...]\<close> for one contract.\<close>

fun sweep_events :: "string \<Rightarrow> tick_env \<Rightarrow> int \<Rightarrow> string \<times> contract \<Rightarrow> string list \<Rightarrow> lstate \<Rightarrow> py_error option \<times> lstate" where
  "sweep_events network env current_block c [] s = (None, s)"
| "sweep_events network env current_block c (event_name # evs) s =
     (case get_logs env c event_name (last_block s + 1) current_block of
        Inl e \<Rightarrow>
          (case except_value_error e of
             Some e' \<Rightarrow> (Some e', emit (GetLogs (fst c) event_name (last_block s + 1) current_block) s)
           | None \<Rightarrow>
               sweep_events network env current_block c evs
                 ((emit (Print (PrunedWarning network current_block))
                    (emit (GetLogs (fst c) event_name (last_block s + 1) current_block) s))
                  \<lparr>last_block := current_block\<rparr>))
      | Inr logs \<Rightarrow>
          (case dispatch_logs network (handler env) logs
                  (emit (GetLogs (fst c) event_name (last_block s + 1) current_block) s) of
             (Some e, s') \<Rightarrow> (Some e, s')
           | (None, s') \<Rightarrow> sweep_events network env current_block c evs s'))"

text \<open>The outer loop \<open>for registry_name, contract in contracts\<close>.\<close>

fun sweep_contracts :: "string \<Rightarrow> tick_env \<Rightarrow> int \<Rightarrow> (string \<times> contract) list \<Rightarrow> lstate \<Rightarrow> py_error option \<times> lstate" where
  "sweep_contracts network env current_block [] s = (None, s)"
| "sweep_contracts network env current_block (c # cs) s =
     (case sweep_events network env current_block c subscribed_events s of
        (Some e, s') \<Rightarrow> (Some e, s')
      | (None, s') \<Rightarrow> sweep_contracts network env current_block cs s')"

definition last_block_key :: "string \<Rightarrow> string" where
  "last_block_key network = network @ ''_all_contracts''"

text \<open>The assignment and the save after the two loops.\<close>

definition advance :: "string \<Rightarrow> tick_env \<Rightarrow> int \<Rightarrow> lstate \<Rightarrow> py_error option \<times> lstate" where
  "advance network env current_block s =
     (case save_last_block (last_block_key network) current_block
             \<lparr>entries = cache_entries s, get_fault = None, set_fault = cache_set_fault env\<rparr> of
        Inl e \<Rightarrow>
          (Some e, emit (SaveLastBlock (last_block_key network) current_block) (s\<lparr>last_block := current_block\<rparr>))
      | Inr (c', msgs) \<Rightarrow>
          (None,
           s\<lparr>last_block := current_block,
             cache_entries := entries c',
             trace := trace s @ SaveLastBlock (last_block_key network) current_block # map Print msgs\<rparr>))"

text \<open>What follows the two loops inside the outer \<open>try\<close>: an exception of the sweep
  goes on; otherwise the cursor is advanced and saved, then \<open>time.sleep(3)\<close>.\<close>

fun after_sweep :: "string \<Rightarrow> tick_env \<Rightarrow> int \<Rightarrow> py_error option \<times> lstate \<Rightarrow> py_error option \<times> lstate" where
  "after_sweep network env current_block (Some e, s) = (Some e, s)"
| "after_sweep network env current_block (None, s) =
     (case advance network env current_block s of
        (Some e, s') \<Rightarrow> (Some e, s')
      | (None, s') \<Rightarrow> (None, emit (Sleep 3) s'))"

text \<open>The body of the outer \<open>try\<close>.\<close>

definition tick_try :: "string \<Rightarrow> (string \<times> contract) list \<Rightarrow> tick_env \<Rightarrow> lstate \<Rightarrow> py_error option \<times> lstate" where
  "tick_try network contracts env s =
     (case block_number env of
        Inl e \<Rightarrow> (Some e, emit ReadBlockNumber s)
      | Inr current_block \<Rightarrow>
          if current_block > last_block s then
            after_sweep network env current_block
              (sweep_contracts network env current_block contracts (emit ReadBlockNumber s))
          else (None, emit (Sleep 3) (emit ReadBlockNumber s)))"

text \<open>The clause \<open>except Exception\<close> of the outer \<open>try\<close>: print, then \<open>time.sleep(5)\<close>.\<close>

fun except_exception :: "string \<Rightarrow> py_error option \<times> lstate \<Rightarrow> lstate" where
  "except_exception network (None, s) = s"
| "except_exception network (Some e, s) = emit (Sleep 5) (emit (Print (ListenerError network e)) s)"

text \<open>One pass of \<open>while True\<close>.\<close>

definition tick :: "string \<Rightarrow> (string \<times> contract) list \<Rightarrow> tick_env \<Rightarrow> lstate \<Rightarrow> lstate" where
  "tick network contracts env s = except_exception network (tick_try network contracts env s)"

text \<open>
  The loop never ends; \<open>run\<close> is the state after one pass for each element of a finite
  list of answers of the outside, that is, after a finite prefix of the run.
\<close>

fun run :: "string \<Rightarrow> (string \<times> contract) list \<Rightarrow> tick_env list \<Rightarrow> lstate \<Rightarrow> lstate" where
  "run network contracts [] s = s"
| "run network contracts (env # envs) s = run network contracts envs (tick network contracts env s)"

text \<open>
  The contract instances: every registry except \<open>ValidatorRegistry\<close>, in the order of
  \<open>registry_contracts.items()\<close>; \<open>abi_map[registry_name]\<close> raises \<open>KeyError\<close> for a
  missing name.
\<close>

fun prepare_contracts :: "(string \<times> string) list \<Rightarrow> (string \<rightharpoonup> string) \<Rightarrow> py_error + (string \<times> contract) list" where
  "prepare_contracts [] abi_map = Inr []"
| "prepare_contracts ((registry_name, registry_address) # rest) abi_map =
     (if registry_name = ''ValidatorRegistry'' then prepare_contracts rest abi_map
      else
        (case abi_map registry_name of
           None \<Rightarrow> Inl (KeyError registry_name)
         | Some a \<Rightarrow>
             (case prepare_contracts rest abi_map of
                Inl e \<Rightarrow> Inl e
              | Inr cs \<Rightarrow> Inr ((registry_name, \<lparr>address = registry_address, abi = a\<rparr>) # cs))))"

text \<open>
  The part of \<open>network_validator_listener\<close> before the loop: \<open>height\<close> is the answer to
  the first \<open>w3.eth.block_number\<close>.
\<close>

definition listener_start :: "(string \<Rightarrow> py_error + int) \<Rightarrow> string \<Rightarrow> py_error + int \<Rightarrow> (string \<times> string) list \<Rightarrow> (string \<rightharpoonup> string) \<Rightarrow> cache \<Rightarrow> py_error + (string \<times> contract) list \<times> lstate" where
  "listener_start to_int network height registry_contracts abi_map c =
     (case height of
        Inl e \<Rightarrow> Inl e
      | Inr h \<Rightarrow>
          (case load_last_block to_int (last_block_key network) (h - 1) c of
             Inl e \<Rightarrow> Inl e
           | Inr lb \<Rightarrow>
               (case prepare_contracts registry_contracts abi_map of
                  Inl e \<Rightarrow> Inl e
                | Inr contracts \<Rightarrow>
                    Inr (contracts,
                         \<lparr>seen_logs = {}, last_block = lb, cache_entries = entries c,
                          trace = [Print (Listening network (length contracts) (lb + 1))]\<rparr>))))"

text \<open>\<open>network_validator_listener\<close> after the passes answered by \<open>envs\<close>.\<close>

definition network_validator_listener :: "(string \<Rightarrow> py_error + int) \<Rightarrow> string \<Rightarrow> py_error + int \<Rightarrow> (string \<times> string) list \<Rightarrow> (string \<rightharpoonup> string) \<Rightarrow> cache \<Rightarrow> tick_env list \<Rightarrow> py_error + lstate" where
  "network_validator_listener to_int network height registry_contracts abi_map c envs =
     (case listener_start to_int network height registry_contracts abi_map c of
        Inl e \<Rightarrow> Inl e
      | Inr (contracts, s) \<Rightarrow> Inr (run network contracts envs s))"

section \<open>Reading the trace\<close>

text \<open>The logs the handler was invoked on, and their keys, in order.\<close>

fun handled_of :: "action \<Rightarrow> log list" where
  "handled_of (Handler ev) = [ev]"
| "handled_of a = []"

definition handled_keys :: "string \<Rightarrow> action list \<Rightarrow> dedupe_key list" where
  "handled_keys network tr = map (log_key network) (concat (map handled_of tr))"

text \<open>The \<open>get_logs\<close> calls: registry, event name, \<open>from_block\<close>, \<open>to_block\<close>.\<close>

fun fetch_of :: "action \<Rightarrow> (string \<times> string \<times> int \<times> int) list" where
  "fetch_of (GetLogs n e f t) = [(n, e, f, t)]"
| "fetch_of a = []"

definition fetches :: "action list \<Rightarrow> (string \<times> string \<times> int \<times> int) list" where
  "fetches tr = concat (map fetch_of tr)"

text \<open>
  The dedup invariant between two states: the trace has grown by \<open>ext\<close>, \<open>seen_logs\<close>
  has grown, and the handler calls in \<open>ext\<close> are on distinct keys that were not in
  \<open>seen_logs\<close> before and are in it afterwards.
\<close>

definition extends :: "string \<Rightarrow> lstate \<Rightarrow> lstate \<Rightarrow> action list \<Rightarrow> bool" where
  "extends network s s' ext =
     (trace s' = trace s @ ext \<and> seen_logs s \<subseteq> seen_logs s' \<and>
      distinct (handled_keys network ext) \<and>
      set (handled_keys network ext) \<inter> seen_logs s = {} \<and>
      set (handled_keys network ext) \<subseteq> seen_logs s')"

definition only_handlers :: "action list \<Rightarrow> bool" where
  "only_handlers ext = (\<forall>a\<in>set ext. \<exists>ev. a = Handler ev)"

text \<open>What a sweep at height \<open>H\<close> does between two of its states.\<close>

definition sweeps :: "string \<Rightarrow> int \<Rightarrow> lstate \<Rightarrow> lstate \<Rightarrow> action list \<Rightarrow> bool" where
  "sweeps n H s s' ext =
     (extends n s s' ext \<and> cache_entries s' = cache_entries s \<and>
      (last_block s' = last_block s \<or> last_block s' = H) \<and>
      (\<forall>(nm, e, f, t)\<in>set (fetches ext). t = H \<and> (f = last_block s + 1 \<or> f = H + 1)) \<and>
      (Print (PrunedWarning n H) \<notin> set ext \<longrightarrow>
         last_block s' = last_block s \<and> (\<forall>(nm, e, f, t)\<in>set (fetches ext). f = last_block s + 1)) \<and>
      (\<forall>k v. SaveLastBlock k v \<notin> set ext))"

text \<open>What the loop does between two of its states, whatever the heights.\<close>

definition advances :: "string \<Rightarrow> lstate \<Rightarrow> lstate \<Rightarrow> action list \<Rightarrow> bool" where
  "advances n s s' ext =
     (extends n s s' ext \<and> last_block s \<le> last_block s' \<and>
      (\<forall>(nm, e, f, t)\<in>set (fetches ext). last_block s < f))"






section \<open>Example inputs\<close>

text \<open>
  A network \<open>fuji\<close> with the registries \<open>A\<close> and \<open>B\<close> besides the validator registry.
  Registry \<open>A\<close> has emitted one log, at block 50. The answers of the outside during a
  pass are given by the height, the exception (if any) each registry's \<open>get_logs\<close>
  raises, and the exception (if any) the handler raises.
\<close>

definition ex_log :: log where
  "ex_log = \<lparr>transactionHash = ''0xabc'', logIndex = 2, blockNumber = 50\<rparr>"

definition ex_logs :: "int \<Rightarrow> int \<Rightarrow> log list" where
  "ex_logs f t = (if f \<le> 50 \<and> 50 \<le> t then [ex_log] else [])"

definition ex_env :: "int \<Rightarrow> (string \<Rightarrow> py_error option) \<Rightarrow> py_error option \<Rightarrow> tick_env" where
  "ex_env H fault hfail =
     \<lparr>block_number = Inr H,
      get_logs = (\<lambda>c e f t. case fault (fst c) of
                     Some err \<Rightarrow> Inl err
                   | None \<Rightarrow> Inr (if fst c = ''A'' then ex_logs f t else [])),
      handler = (\<lambda>ev. hfail),
      cache_set_fault = None\<rparr>"

definition ex_pruned :: py_error where
  "ex_pruned = ValueError [ArgDict (Some (- 32000))]"

definition ex_registry :: "(string \<times> string) list" where
  "ex_registry = [(''ValidatorRegistry'', ''0x00''), (''A'', ''0x0a''), (''B'', ''0x0b'')]"

definition ex_abis :: "string \<rightharpoonup> string" where
  "ex_abis = [''ValidatorRegistry'' \<mapsto> ''abiV'', ''A'' \<mapsto> ''abiA'', ''B'' \<mapsto> ''abiB'']"

definition ex_contracts :: "(string \<times> contract) list" where
  "ex_contracts = [(''A'', \<lparr>address = ''0x0a'', abi = ''abiA''\<rparr>), (''B'', \<lparr>address = ''0x0b'', abi = ''abiB''\<rparr>)]"

definition ex_cache :: cache where
  "ex_cache = \<lparr>entries = Map.empty, get_fault = None, set_fault = None\<rparr>"

definition ex_state :: "int \<Rightarrow> lstate" where
  "ex_state lb = \<lparr>seen_logs = {}, last_block = lb, cache_entries = Map.empty, trace = []\<rparr>"

section \<open>Invariants of the loop\<close>

lemma handled_keys_append [simp]:
  "handled_keys n (a @ b) = handled_keys n a @ handled_keys n b"
  by (simp add: handled_keys_def)

lemma handled_keys_Nil [simp]: "handled_keys n [] = []"
  by (simp add: handled_keys_def)

lemma handled_keys_Cons:
  "handled_keys n (a # tr) = map (log_key n) (handled_of a) @ handled_keys n tr"
  by (simp add: handled_keys_def)

lemma extends_refl: "extends n s s []"
  by (simp add: extends_def)

lemma extends_trans:
  assumes "extends n s s' e1" and "extends n s' s'' e2"
  shows "extends n s s'' (e1 @ e2)"
  using assms unfolding extends_def by (auto simp: disjoint_iff)

lemma extends_emit:
  assumes "handled_of a = []"
  shows "extends n s (emit a s) [a]"
  using assms by (simp add: extends_def emit_def handled_keys_Cons)

lemma extends_handle:
  assumes "log_key n ev \<notin> seen_logs s"
  shows "extends n s (emit (Handler ev) (s\<lparr>seen_logs := insert (log_key n ev) (seen_logs s)\<rparr>)) [Handler ev]"
  using assms by (auto simp: extends_def emit_def handled_keys_Cons)

lemma fetches_append [simp]: "fetches (a @ b) = fetches a @ fetches b"
  by (simp add: fetches_def)

lemma fetches_Nil [simp]: "fetches [] = []"
  by (simp add: fetches_def)

lemma fetches_Cons: "fetches (a # tr) = fetch_of a @ fetches tr"
  by (simp add: fetches_def)

lemma dispatch_logs_extends:
  "dispatch_logs n h logs s = (r, s') \<Longrightarrow> \<exists>ext. extends n s s' ext \<and> only_handlers ext"
proof (induction logs arbitrary: s)
  case Nil
  then show ?case using extends_refl[of n s] by (auto simp: only_handlers_def)
next
  case (Cons ev logs)
  show ?case
  proof (cases "log_key n ev \<in> seen_logs s")
    case True
    with Cons show ?thesis by simp
  next
    case False
    let ?s1 = "emit (Handler ev) (s\<lparr>seen_logs := insert (log_key n ev) (seen_logs s)\<rparr>)"
    have e1: "extends n s ?s1 [Handler ev]" using False by (rule extends_handle)
    show ?thesis
    proof (cases "h ev")
      case None
      with False Cons.prems have "dispatch_logs n h logs ?s1 = (r, s')" by simp
      from Cons.IH[OF this] obtain ext where e2: "extends n ?s1 s' ext" and oh: "only_handlers ext" by blast
      have "extends n s s' ([Handler ev] @ ext)" using e1 e2 by (rule extends_trans)
      moreover have "only_handlers ([Handler ev] @ ext)" using oh by (simp add: only_handlers_def)
      ultimately show ?thesis by blast
    next
      case (Some e)
      with False Cons.prems have "s' = ?s1" by simp
      moreover have "only_handlers [Handler ev]" by (simp add: only_handlers_def)
      ultimately show ?thesis using e1 by blast
    qed
  qed
qed

lemma dispatch_logs_frame:
  "dispatch_logs n h logs s = (r, s') \<Longrightarrow> last_block s' = last_block s \<and> cache_entries s' = cache_entries s"
  by (induction logs arbitrary: s) (auto simp: emit_def split: if_splits option.splits)

lemma only_handlers_fetches: "only_handlers ext \<Longrightarrow> fetches ext = []"
  by (induction ext) (auto simp: only_handlers_def fetches_Cons)

lemma only_handlers_no_save: "only_handlers ext \<Longrightarrow> SaveLastBlock k v \<notin> set ext"
  by (auto simp: only_handlers_def)

lemma sweeps_refl: "sweeps n H s s []"
  by (simp add: sweeps_def extends_refl)

lemma sweeps_trans:
  assumes "sweeps n H s s' e1" and "sweeps n H s' s'' e2"
  shows "sweeps n H s s'' (e1 @ e2)"
proof -
  have "extends n s s'' (e1 @ e2)"
    using assms by (auto simp: sweeps_def intro: extends_trans)
  then show ?thesis
    using assms unfolding sweeps_def by auto
qed

lemma sweeps_dispatch:
  assumes "dispatch_logs n h logs s = (r, s')"
  shows "\<exists>ext. sweeps n H s s' ext"
proof -
  from dispatch_logs_extends[OF assms] obtain ext where "extends n s s' ext" "only_handlers ext" by blast
  then have "sweeps n H s s' ext"
    using dispatch_logs_frame[OF assms]
    by (simp add: sweeps_def only_handlers_fetches only_handlers_no_save)
  then show ?thesis ..
qed

lemma sweeps_fetch: "sweeps n H s (emit (GetLogs nm e (last_block s + 1) H) s) [GetLogs nm e (last_block s + 1) H]"
  by (simp add: sweeps_def extends_emit fetches_Cons) (simp add: emit_def)

lemma sweeps_pruned:
  "sweeps n H s ((emit (Print (PrunedWarning n H)) (emit (GetLogs nm e (last_block s + 1) H) s))\<lparr>last_block := H\<rparr>)
     [GetLogs nm e (last_block s + 1) H, Print (PrunedWarning n H)]"
  by (simp add: sweeps_def fetches_Cons extends_def emit_def handled_keys_Cons)

lemma sweep_events_sweeps:
  "sweep_events n env H c evs s = (r, s') \<Longrightarrow> \<exists>ext. sweeps n H s s' ext"
proof (induction evs arbitrary: s)
  case Nil
  then show ?case using sweeps_refl[of n H s] by auto
next
  case (Cons e evs)
  let ?f = "emit (GetLogs (fst c) e (last_block s + 1) H) s"
  have f: "sweeps n H s ?f [GetLogs (fst c) e (last_block s + 1) H]" by (rule sweeps_fetch)
  show ?case
  proof (cases "get_logs env c e (last_block s + 1) H")
    case (Inl err)
    show ?thesis
    proof (cases "except_value_error err")
      case None
      let ?p = "(emit (Print (PrunedWarning n H)) ?f)\<lparr>last_block := H\<rparr>"
      from Inl None Cons.prems have "sweep_events n env H c evs ?p = (r, s')" by simp
      from Cons.IH[OF this] obtain ext where "sweeps n H ?p s' ext" ..
      with sweeps_pruned[of n H s "fst c" e] have "sweeps n H s s' ([GetLogs (fst c) e (last_block s + 1) H, Print (PrunedWarning n H)] @ ext)"
        by (rule sweeps_trans)
      then show ?thesis ..
    next
      case (Some e')
      with Inl Cons.prems have "s' = ?f" by simp
      with f show ?thesis by blast
    qed
  next
    case (Inr logs)
    obtain r1 s1 where d: "dispatch_logs n (handler env) logs ?f = (r1, s1)" by (cases "dispatch_logs n (handler env) logs ?f")
    from sweeps_dispatch[OF d, of H] obtain e1 where e1: "sweeps n H ?f s1 e1" ..
    have fs1: "sweeps n H s s1 ([GetLogs (fst c) e (last_block s + 1) H] @ e1)" using f e1 by (rule sweeps_trans)
    show ?thesis
    proof (cases r1)
      case None
      with Inr d Cons.prems have "sweep_events n env H c evs s1 = (r, s')" by simp
      from Cons.IH[OF this] obtain e2 where "sweeps n H s1 s' e2" ..
      with fs1 have "sweeps n H s s' (([GetLogs (fst c) e (last_block s + 1) H] @ e1) @ e2)" by (rule sweeps_trans)
      then show ?thesis ..
    next
      case (Some a)
      with Inr d Cons.prems have "s' = s1" by simp
      with fs1 show ?thesis by blast
    qed
  qed
qed

lemma sweep_contracts_sweeps:
  "sweep_contracts n env H cs s = (r, s') \<Longrightarrow> \<exists>ext. sweeps n H s s' ext"
proof (induction cs arbitrary: s)
  case Nil
  then show ?case using sweeps_refl[of n H s] by auto
next
  case (Cons c cs)
  obtain r1 s1 where d: "sweep_events n env H c subscribed_events s = (r1, s1)" by (cases "sweep_events n env H c subscribed_events s")
  from sweep_events_sweeps[OF d] obtain e1 where e1: "sweeps n H s s1 e1" ..
  show ?case
  proof (cases r1)
    case None
    with d Cons.prems have "sweep_contracts n env H cs s1 = (r, s')" by simp
    from Cons.IH[OF this] obtain e2 where "sweeps n H s1 s' e2" ..
    with e1 have "sweeps n H s s' (e1 @ e2)" by (rule sweeps_trans)
    then show ?thesis ..
  next
    case (Some a)
    with d Cons.prems have "s' = s1" by simp
    with e1 show ?thesis by blast
  qed
qed

lemma advances_refl: "advances n s s []"
  by (simp add: advances_def extends_refl)

lemma advances_trans:
  assumes "advances n s s' e1" and "advances n s' s'' e2"
  shows "advances n s s'' (e1 @ e2)"
proof -
  have "extends n s s'' (e1 @ e2)"
    using assms by (auto simp: advances_def intro: extends_trans)
  then show ?thesis
    using assms unfolding advances_def by fastforce
qed

lemma advances_emit:
  assumes "handled_of a = []" and "fetch_of a = []"
  shows "advances n s (emit a s) [a]"
  using assms by (simp add: advances_def extends_emit fetches_Cons) (simp add: emit_def)

lemma sweeps_advances:
  assumes "sweeps n H s s' ext" and "last_block s \<le> H"
  shows "advances n s s' ext"
  using assms unfolding sweeps_def advances_def by fastforce

lemma advance_advances:
  assumes "advance n env H s = (r, s')" and "last_block s \<le> H"
  shows "\<exists>ext. advances n s s' ext"
proof (cases "cache_set_fault env")
  case None
  with assms(1) have "s' = s\<lparr>last_block := H,
      cache_entries := (cache_entries s)(last_block_key n \<mapsto> py_str H),
      trace := trace s @ [SaveLastBlock (last_block_key n) H]\<rparr>"
    by (auto simp: advance_def save_last_block_def cache_set_def)
  with assms(2) have "advances n s s' [SaveLastBlock (last_block_key n) H]"
    by (simp add: advances_def extends_def handled_keys_Cons fetches_Cons)
  then show ?thesis ..
next
  case (Some e)
  with assms(1) have "s' = s\<lparr>last_block := H,
      cache_entries := cache_entries s,
      trace := trace s @ [SaveLastBlock (last_block_key n) H, Print (SaveFailed (last_block_key n) e)]\<rparr>"
    by (auto simp: advance_def save_last_block_def cache_set_def)
  with assms(2) have "advances n s s' [SaveLastBlock (last_block_key n) H, Print (SaveFailed (last_block_key n) e)]"
    by (simp add: advances_def extends_def handled_keys_Cons fetches_Cons)
  then show ?thesis ..
qed

lemma sweeps_last_block_le:
  assumes "sweeps n H s s' ext" and "last_block s \<le> H"
  shows "last_block s' \<le> H"
  using assms unfolding sweeps_def by auto

lemma after_sweep_advances:
  assumes "after_sweep n env H (r1, s1) = (r, s')" and "last_block s1 \<le> H"
  shows "\<exists>ext. advances n s1 s' ext"
proof (cases r1)
  case (Some e)
  with assms have "s' = s1" by simp
  then show ?thesis using advances_refl[of n s1] by blast
next
  case None
  obtain r2 s2 where a: "advance n env H s1 = (r2, s2)" by (cases "advance n env H s1")
  from advance_advances[OF a assms(2)] obtain e1 where e1: "advances n s1 s2 e1" ..
  show ?thesis
  proof (cases r2)
    case (Some e)
    with None a assms(1) have "s' = s2" by simp
    with e1 show ?thesis by blast
  next
    case None': None
    with None a assms(1) have "s' = emit (Sleep 3) s2" by simp
    moreover have "advances n s2 (emit (Sleep 3) s2) [Sleep 3]" by (simp add: advances_emit)
    ultimately have "advances n s2 s' [Sleep 3]" by simp
    with e1 have "advances n s1 s' (e1 @ [Sleep 3])" by (rule advances_trans)
    then show ?thesis ..
  qed
qed

lemma tick_try_advances:
  assumes "tick_try n cs env s = (r, s')"
  shows "\<exists>ext. advances n s s' ext"
proof -
  let ?s0 = "emit ReadBlockNumber s"
  have r: "advances n s ?s0 [ReadBlockNumber]" by (simp add: advances_emit)
  show ?thesis
  proof (cases "block_number env")
    case (Inl e)
    with assms have "s' = ?s0" by (simp add: tick_try_def)
    with r show ?thesis by blast
  next
    case (Inr H)
    show ?thesis
    proof (cases "H > last_block s")
      case False
      with Inr assms have "s' = emit (Sleep 3) ?s0" by (simp add: tick_try_def)
      moreover have "advances n ?s0 (emit (Sleep 3) ?s0) [Sleep 3]" by (simp add: advances_emit)
      ultimately have "advances n ?s0 s' [Sleep 3]" by simp
      with r have "advances n s s' ([ReadBlockNumber] @ [Sleep 3])" by (rule advances_trans)
      then show ?thesis ..
    next
      case True
      then have le: "last_block ?s0 \<le> H" by (simp add: emit_def)
      obtain r1 s1 where sw: "sweep_contracts n env H cs ?s0 = (r1, s1)" by (cases "sweep_contracts n env H cs ?s0")
      from sweep_contracts_sweeps[OF sw] obtain e1 where e1: "sweeps n H ?s0 s1 e1" ..
      have a1: "advances n ?s0 s1 e1" using e1 le by (rule sweeps_advances)
      have le1: "last_block s1 \<le> H" using e1 le by (rule sweeps_last_block_le)
      from True Inr sw assms have "after_sweep n env H (r1, s1) = (r, s')" by (simp add: tick_try_def)
      from after_sweep_advances[OF this le1] obtain e2 where "advances n s1 s' e2" ..
      with a1 have "advances n ?s0 s' (e1 @ e2)" by (rule advances_trans)
      with r have "advances n s s' ([ReadBlockNumber] @ e1 @ e2)" by (rule advances_trans)
      then show ?thesis ..
    qed
  qed
qed

lemma tick_advances: "\<exists>ext. advances n s (tick n cs env s) ext"
proof -
  obtain r s1 where t: "tick_try n cs env s = (r, s1)" by (cases "tick_try n cs env s")
  from tick_try_advances[OF t] obtain e1 where e1: "advances n s s1 e1" ..
  show ?thesis
  proof (cases r)
    case None
    with t have "tick n cs env s = s1" by (simp add: tick_def)
    with e1 show ?thesis by auto
  next
    case (Some e)
    let ?p = "emit (Print (ListenerError n e)) s1"
    from Some t have "tick n cs env s = emit (Sleep 5) ?p" by (simp add: tick_def)
    moreover have "advances n s1 ?p [Print (ListenerError n e)]" by (simp add: advances_emit)
    moreover have "advances n ?p (emit (Sleep 5) ?p) [Sleep 5]" by (simp add: advances_emit)
    ultimately have "advances n s1 (tick n cs env s) ([Print (ListenerError n e)] @ [Sleep 5])"
      by (simp only: advances_trans)
    with e1 have "advances n s (tick n cs env s) (e1 @ [Print (ListenerError n e)] @ [Sleep 5])"
      by (rule advances_trans)
    then show ?thesis ..
  qed
qed

lemma run_advances: "\<exists>ext. advances n s (run n cs envs s) ext"
proof (induction envs arbitrary: s)
  case Nil
  show ?case using advances_refl[of n s] by auto
next
  case (Cons env envs)
  from tick_advances obtain e1 where e1: "advances n s (tick n cs env s) e1" ..
  from Cons.IH obtain e2 where "advances n (tick n cs env s) (run n cs envs (tick n cs env s)) e2" ..
  with e1 have "advances n s (run n cs envs (tick n cs env s)) (e1 @ e2)" by (rule advances_trans)
  then show ?case by auto
qed

lemma run_append: "run n cs (envs1 @ envs2) s = run n cs envs2 (run n cs envs1 s)"
  by (induction envs1 arbitrary: s) auto

lemma distinct_count_list_le: "distinct xs \<Longrightarrow> count_list xs k \<le> 1"
  by (induction xs) (auto simp: count_list_0_iff)

lemma sweep_contracts_append:
  "sweep_contracts n env H (cs1 @ cs2) s =
     (case sweep_contracts n env H cs1 s of
        (Some e, s') \<Rightarrow> (Some e, s')
      | (None, s') \<Rightarrow> sweep_contracts n env H cs2 s')"
  by (induction cs1 arbitrary: s) (auto split: prod.splits option.splits)

lemma except_exception_advances: "\<exists>ext. advances n s (except_exception n (r, s)) ext"
proof (cases r)
  case None
  then show ?thesis using advances_refl[of n s] by auto
next
  case (Some e)
  let ?p = "emit (Print (ListenerError n e)) s"
  have "advances n s ?p [Print (ListenerError n e)]" by (simp add: advances_emit)
  moreover have "advances n ?p (emit (Sleep 5) ?p) [Sleep 5]" by (simp add: advances_emit)
  ultimately have "advances n s (emit (Sleep 5) ?p) ([Print (ListenerError n e)] @ [Sleep 5])"
    by (rule advances_trans)
  with Some show ?thesis by auto
qed


lemma sweep_contracts_first:
  assumes "sweep_contracts n env H (c0 # cs) s = (r, s')"
  shows "\<exists>ext. trace s' = trace s @ GetLogs (fst c0) ''PostProof'' (last_block s + 1) H # ext"
proof -
  obtain r1 s1 where d: "sweep_events n env H c0 [''PostProof''] s = (r1, s1)"
    by (cases "sweep_events n env H c0 [''PostProof''] s")
  have "\<exists>ext. trace s1 = trace s @ GetLogs (fst c0) ''PostProof'' (last_block s + 1) H # ext"
  proof (cases "get_logs env c0 ''PostProof'' (last_block s + 1) H")
    case (Inl err)
    with d show ?thesis by (cases "except_value_error err") (auto simp: emit_def)
  next
    case (Inr logs)
    let ?f = "emit (GetLogs (fst c0) ''PostProof'' (last_block s + 1) H) s"
    obtain r2 s2 where dl: "dispatch_logs n (handler env) logs ?f = (r2, s2)"
      by (cases "dispatch_logs n (handler env) logs ?f")
    from dispatch_logs_extends[OF dl] obtain e where "trace s2 = trace ?f @ e"
      by (auto simp: extends_def)
    moreover from Inr d dl have "s1 = s2" by (cases r2) auto
    ultimately show ?thesis by (simp add: emit_def)
  qed
  then obtain e1 where e1: "trace s1 = trace s @ GetLogs (fst c0) ''PostProof'' (last_block s + 1) H # e1" ..
  show ?thesis
  proof (cases r1)
    case None
    with d assms have "sweep_contracts n env H cs s1 = (r, s')" by (simp add: subscribed_events_def)
    from sweep_contracts_sweeps[OF this] obtain e2 where "trace s' = trace s1 @ e2"
      by (auto simp: sweeps_def extends_def)
    with e1 show ?thesis by simp
  next
    case (Some a)
    with d assms have "s' = s1" by (simp add: subscribed_events_def)
    with e1 show ?thesis by blast
  qed
qed

lemma advances_trace: "advances n s s' ext \<Longrightarrow> trace s' = trace s @ ext"
  by (simp add: advances_def extends_def)

lemma tick_first_fetch:
  assumes "block_number env = Inr H" and "last_block s < H"
  shows "\<exists>ext. trace (tick n (c0 # cs) env s) = trace s @ ReadBlockNumber # GetLogs (fst c0) ''PostProof'' (last_block s + 1) H # ext"
proof -
  let ?s0 = "emit ReadBlockNumber s"
  obtain r1 s1 where sw: "sweep_contracts n env H (c0 # cs) ?s0 = (r1, s1)"
    by (cases "sweep_contracts n env H (c0 # cs) ?s0")
  from sweep_contracts_first[OF sw] obtain e1 where
    e1: "trace s1 = trace s @ ReadBlockNumber # GetLogs (fst c0) ''PostProof'' (last_block s + 1) H # e1"
    by (auto simp: emit_def)
  from sweep_contracts_sweeps[OF sw] obtain e0 where "sweeps n H ?s0 s1 e0" ..
  then have le1: "last_block s1 \<le> H" using assms(2) by (auto simp: sweeps_def emit_def)
  obtain r2 s2 where a: "after_sweep n env H (r1, s1) = (r2, s2)" by (cases "after_sweep n env H (r1, s1)")
  from after_sweep_advances[OF a le1] obtain e2 where e2: "trace s2 = trace s1 @ e2"
    by (auto dest: advances_trace)
  from except_exception_advances[of n s2 r2] obtain e3 where e3: "trace (except_exception n (r2, s2)) = trace s2 @ e3"
    by (auto dest: advances_trace)
  from assms sw a have "tick n (c0 # cs) env s = except_exception n (r2, s2)"
    by (simp add: tick_def tick_try_def)
  with e1 e2 e3 show ?thesis by simp
qed

lemma listener_dedup:
  assumes "network_validator_listener to_int net height rc am c envs = Inr s"
  shows "distinct (handled_keys net (trace s)) \<and> set (handled_keys net (trace s)) \<subseteq> seen_logs s"
proof -
  from assms obtain cs s0 where st: "listener_start to_int net height rc am c = Inr (cs, s0)"
    and s: "s = run net cs envs s0"
    by (auto simp: network_validator_listener_def split: sum.splits)
  from st have "handled_keys net (trace s0) = []"
    by (auto simp: listener_start_def handled_keys_Cons split: sum.splits)
  moreover from run_advances[of net s0 cs envs] s obtain ext where "extends net s0 s ext"
    by (auto simp: advances_def)
  ultimately show ?thesis
    by (simp add: extends_def)
qed

lemma listener_append:
  assumes "network_validator_listener to_int net height rc am c envs1 = Inr s1"
  shows "\<exists>cs. network_validator_listener to_int net height rc am c (envs1 @ envs2) = Inr (run net cs envs2 s1)"
  using assms
  by (auto simp: network_validator_listener_def run_append split: sum.splits)

lemma distinct_count_list_eq: "distinct xs \<Longrightarrow> k \<in> set xs \<Longrightarrow> count_list xs k = 1"
  by (induction xs) (auto simp: count_list_0_iff)

lemma handler_in_keys: "Handler ev \<in> set tr \<Longrightarrow> log_key n ev \<in> set (handled_keys n tr)"
  by (induction tr) (auto simp: handled_keys_Cons)










text \<open>Evaluations used by the examples.\<close>

lemma py_str_42: "py_str 42 = ''42''"
  by code_simp


lemma decimal_int_41: "decimal_int ''41'' = Inr 41"
  by (simp add: decimal_int_def strip_def is_space_def unsigned_int_def digit_of_def)

lemmas ex_defs = ex_log_def ex_logs_def ex_env_def ex_pruned_def ex_registry_def ex_abis_def
  ex_contracts_def ex_cache_def ex_state_def

lemmas step_defs = tick_def tick_try_def emit_def subscribed_events_def advance_def
  save_last_block_def cache_set_def last_block_key_def log_key_def

section \<open>The claims\<close>

text \<open>
  C1. In every run of the listener, after any number of passes, the handler has been
  invoked at most once for each event identity (network, transaction hash, log index),
  however often the fetches have returned the log.
\<close>

theorem handler_at_most_once:
  assumes "network_validator_listener to_int net height rc am c envs = Inr s"
  shows "count_list (handled_keys net (trace s)) k \<le> 1"
proof -
  from listener_dedup[OF assms] have "distinct (handled_keys net (trace s))" ..
  then show ?thesis by (rule distinct_count_list_le)
qed

text \<open>
  The log of block 50 is fetched in two passes (the handler raises in the first, so the
  cursor stays at 49), and handled once.
\<close>

theorem handler_at_most_once_witness:
  "network_validator_listener decimal_int ''fuji'' (Inr 50) ex_registry ex_abis ex_cache
     [ex_env 60 Map.empty (Some (OtherException ''db'')), ex_env 61 Map.empty None]
     = Inr (run ''fuji'' ex_contracts
              [ex_env 60 Map.empty (Some (OtherException ''db'')), ex_env 61 Map.empty None]
              \<lparr>seen_logs = {}, last_block = 49, cache_entries = Map.empty,
               trace = [Print (Listening ''fuji'' (length ex_contracts) 50)]\<rparr>)
   \<and> fetches (trace (run ''fuji'' ex_contracts
              [ex_env 60 Map.empty (Some (OtherException ''db'')), ex_env 61 Map.empty None]
              \<lparr>seen_logs = {}, last_block = 49, cache_entries = Map.empty,
               trace = [Print (Listening ''fuji'' (length ex_contracts) 50)]\<rparr>))
       = [(''A'', ''PostProof'', 50, 60), (''A'', ''PostProof'', 50, 61), (''B'', ''PostProof'', 50, 61)]
   \<and> count_list (handled_keys ''fuji'' (trace (run ''fuji'' ex_contracts
              [ex_env 60 Map.empty (Some (OtherException ''db'')), ex_env 61 Map.empty None]
              \<lparr>seen_logs = {}, last_block = 49, cache_entries = Map.empty,
               trace = [Print (Listening ''fuji'' (length ex_contracts) 50)]\<rparr>))) (''fuji'', ''0xabc'', 2) \<le> 1"
proof -
  have h: "network_validator_listener decimal_int ''fuji'' (Inr 50) ex_registry ex_abis ex_cache
     [ex_env 60 Map.empty (Some (OtherException ''db'')), ex_env 61 Map.empty None]
     = Inr (run ''fuji'' ex_contracts
              [ex_env 60 Map.empty (Some (OtherException ''db'')), ex_env 61 Map.empty None]
              \<lparr>seen_logs = {}, last_block = 49, cache_entries = Map.empty,
               trace = [Print (Listening ''fuji'' (length ex_contracts) 50)]\<rparr>)"
    by (simp add: network_validator_listener_def listener_start_def load_last_block_def load_try_def
        cache_get_def ex_cache_def ex_registry_def ex_abis_def ex_contracts_def)
  have f: "fetches (trace (run ''fuji'' ex_contracts
              [ex_env 60 Map.empty (Some (OtherException ''db'')), ex_env 61 Map.empty None]
              \<lparr>seen_logs = {}, last_block = 49, cache_entries = Map.empty,
               trace = [Print (Listening ''fuji'' (length ex_contracts) 50)]\<rparr>))
       = [(''A'', ''PostProof'', 50, 60), (''A'', ''PostProof'', 50, 61), (''B'', ''PostProof'', 50, 61)]"
    by (simp add: step_defs ex_defs fetches_def)
  from handler_at_most_once[OF h] h f show ?thesis by simp
qed

text \<open>
  C2. The cursor \<open>last_block\<close> never decreases: not over one pass, not over any number of
  passes, and not inside a sweep (which the loop enters only at a height above the cursor,
  and which leaves the cursor at its value or at that height). \<open>reset_last_block\<close> writes
  to the cache only and is not called by the loop.
\<close>

theorem cursor_non_decreasing:
  "last_block s \<le> last_block (tick net cs env s) \<and>
   last_block s \<le> last_block (run net cs envs s) \<and>
   (last_block s \<le> H \<longrightarrow>
      last_block s \<le> last_block (snd (sweep_contracts net env H cs s)) \<and>
      last_block (snd (sweep_contracts net env H cs s)) \<le> H)"
proof -
  from tick_advances[of net s cs env] have "last_block s \<le> last_block (tick net cs env s)"
    by (auto simp: advances_def)
  moreover from run_advances[of net s cs envs] have "last_block s \<le> last_block (run net cs envs s)"
    by (auto simp: advances_def)
  moreover have "last_block s \<le> last_block (snd (sweep_contracts net env H cs s)) \<and>
      last_block (snd (sweep_contracts net env H cs s)) \<le> H" if le: "last_block s \<le> H"
  proof -
    obtain r s' where sw: "sweep_contracts net env H cs s = (r, s')"
      by (cases "sweep_contracts net env H cs s")
    from sweep_contracts_sweeps[OF sw] obtain ext where "sweeps net H s s' ext" ..
    with le sw show ?thesis by (auto simp: sweeps_def)
  qed
  ultimately show ?thesis by blast
qed

text \<open>The height falls from 60 to 55 between two passes; the cursor stays at 60.\<close>

theorem cursor_non_decreasing_witness:
  "last_block (ex_state 49) \<le> 60 \<and>
   last_block (tick ''fuji'' ex_contracts (ex_env 60 Map.empty None) (ex_state 49)) = 60 \<and>
   last_block (run ''fuji'' ex_contracts [ex_env 60 Map.empty None, ex_env 55 Map.empty None] (ex_state 49)) = 60 \<and>
   last_block (snd (sweep_contracts ''fuji'' (ex_env 60 [''A'' \<mapsto> ex_pruned] None) 60 ex_contracts (ex_state 49))) = 60"
  using cursor_non_decreasing[of "ex_state 49" "''fuji''" ex_contracts "ex_env 60 Map.empty None"
      "[ex_env 60 Map.empty None, ex_env 55 Map.empty None]" 60]
  by (simp add: step_defs ex_defs)

text \<open>
  C3, as stated, fails: registry \<open>A\<close> answers with the pruned-range error, which sets the
  cursor to 60, and then registry \<open>B\<close> fails with another error. The pass ends in the
  outer handler with the cursor at 60, and the next pass fetches from 61, not from 50.
\<close>

theorem provider_error_after_prune_counterexample:
  "get_logs (ex_env 60 [''A'' \<mapsto> ex_pruned, ''B'' \<mapsto> OtherException ''timeout''] None)
       (''B'', \<lparr>address = ''0x0b'', abi = ''abiB''\<rparr>) ''PostProof'' 61 60 = Inl (OtherException ''timeout'') \<and>
   last_block (ex_state 49) = 49 \<and>
   trace (tick ''fuji'' ex_contracts (ex_env 60 [''A'' \<mapsto> ex_pruned, ''B'' \<mapsto> OtherException ''timeout''] None) (ex_state 49))
     = [ReadBlockNumber, GetLogs ''A'' ''PostProof'' 50 60, Print (PrunedWarning ''fuji'' 60),
        GetLogs ''B'' ''PostProof'' 61 60, Print (ListenerError ''fuji'' (OtherException ''timeout'')), Sleep 5] \<and>
   last_block (tick ''fuji'' ex_contracts (ex_env 60 [''A'' \<mapsto> ex_pruned, ''B'' \<mapsto> OtherException ''timeout''] None) (ex_state 49)) = 60 \<and>
   fetches (trace (run ''fuji'' ex_contracts
       [ex_env 60 [''A'' \<mapsto> ex_pruned, ''B'' \<mapsto> OtherException ''timeout''] None, ex_env 61 Map.empty None] (ex_state 49)))
     = [(''A'', ''PostProof'', 50, 60), (''B'', ''PostProof'', 61, 60),
        (''A'', ''PostProof'', 61, 61), (''B'', ''PostProof'', 61, 61)]"
  by (simp add: step_defs ex_defs fetches_def)

text \<open>
  C3, amended. If a fetch fails with an error that is not the pruned-range condition, in
  a pass in which no pruned-range error has been handled before it, then the cursor keeps
  its value, nothing is saved to the cache, the error is caught by the outer handler
  (message, \<open>sleep(5)\<close>), and the next pass with a height above the cursor starts by
  fetching from the same cursor value plus 1.
\<close>

theorem provider_error_keeps_cursor:
  assumes bn: "block_number env = Inr H" and lt: "last_block s < H"
    and pre: "sweep_contracts net env H cs1 (emit ReadBlockNumber s) = (None, s1)"
    and nopr: "last_block s1 = last_block s"
    and err: "get_logs env c ''PostProof'' (last_block s + 1) H = Inl err"
    and exc: "except_value_error err = Some err'"
    and bn2: "block_number env2 = Inr H2" and lt2: "last_block s < H2"
  shows "tick net (cs1 @ c # cs2) env s =
           emit (Sleep 5) (emit (Print (ListenerError net err'))
             (emit (GetLogs (fst c) ''PostProof'' (last_block s + 1) H) s1)) \<and>
         last_block (tick net (cs1 @ c # cs2) env s) = last_block s \<and>
         cache_entries (tick net (cs1 @ c # cs2) env s) = cache_entries s \<and>
         (\<exists>ext. trace (tick net (cs1 @ c # cs2) env s) = trace s @ ext \<and>
                (\<forall>k v. SaveLastBlock k v \<notin> set ext)) \<and>
         (\<exists>ext2. trace (tick net (cs1 @ c # cs2) env2 (tick net (cs1 @ c # cs2) env s)) =
                   trace (tick net (cs1 @ c # cs2) env s) @
                   ReadBlockNumber # GetLogs (fst (hd (cs1 @ [c]))) ''PostProof'' (last_block s + 1) H2 # ext2)"
proof -
  let ?cs = "cs1 @ c # cs2"
  let ?g = "GetLogs (fst c) ''PostProof'' (last_block s + 1) H"
  let ?t = "emit (Sleep 5) (emit (Print (ListenerError net err')) (emit ?g s1))"
  have ev: "sweep_events net env H c subscribed_events s1 = (Some err', emit ?g s1)"
    using err exc nopr by (simp add: subscribed_events_def)
  have sw: "sweep_contracts net env H ?cs (emit ReadBlockNumber s) = (Some err', emit ?g s1)"
    using pre ev by (simp add: sweep_contracts_append)
  have t: "tick net ?cs env s = ?t"
    using bn lt sw by (simp add: tick_def tick_try_def)
  from sweep_contracts_sweeps[OF pre] obtain e1 where e1: "sweeps net H (emit ReadBlockNumber s) s1 e1" ..
  then have ce: "cache_entries s1 = cache_entries s"
    and t1: "trace s1 = trace s @ ReadBlockNumber # e1"
    and ns: "\<forall>k v. SaveLastBlock k v \<notin> set e1"
    by (simp_all add: sweeps_def extends_def emit_def)
  have lb: "last_block ?t = last_block s" using nopr by (simp add: emit_def)
  have cc: "cache_entries ?t = cache_entries s" using ce by (simp add: emit_def)
  have tr: "trace ?t = trace s @ (ReadBlockNumber # e1 @ [?g, Print (ListenerError net err'), Sleep 5])"
    using t1 by (simp add: emit_def)
  have nsv: "\<forall>k v. SaveLastBlock k v \<notin> set (ReadBlockNumber # e1 @ [?g, Print (ListenerError net err'), Sleep 5])"
    using ns by simp
  obtain c0 rest where c0: "?cs = c0 # rest" and hd: "c0 = hd (cs1 @ [c])"
    by (cases cs1) auto
  have lt2': "last_block ?t < H2" using lt2 lb by simp
  from tick_first_fetch[OF bn2 lt2', of net c0 rest] obtain ext2 where
    "trace (tick net (c0 # rest) env2 ?t) =
       trace ?t @ ReadBlockNumber # GetLogs (fst c0) ''PostProof'' (last_block ?t + 1) H2 # ext2" ..
  then have nx: "trace (tick net ?cs env2 ?t) =
       trace ?t @ ReadBlockNumber # GetLogs (fst (hd (cs1 @ [c]))) ''PostProof'' (last_block s + 1) H2 # ext2"
    using c0 hd lb by simp
  show ?thesis
    unfolding t using lb cc tr nsv nx by blast
qed

text \<open>Registry \<open>B\<close> times out after \<open>A\<close> has been swept: both are fetched from 50 again.\<close>

theorem provider_error_keeps_cursor_witness:
  "block_number (ex_env 60 [''B'' \<mapsto> OtherException ''timeout''] None) = Inr 60 \<and>
   last_block (ex_state 49) < 60 \<and>
   get_logs (ex_env 60 [''B'' \<mapsto> OtherException ''timeout''] None)
       (''B'', \<lparr>address = ''0x0b'', abi = ''abiB''\<rparr>) ''PostProof'' 50 60 = Inl (OtherException ''timeout'') \<and>
   except_value_error (OtherException ''timeout'') = Some (OtherException ''timeout'') \<and>
   tick ''fuji'' ex_contracts (ex_env 60 [''B'' \<mapsto> OtherException ''timeout''] None) (ex_state 49) =
     \<lparr>seen_logs = {(''fuji'', ''0xabc'', 2)}, last_block = 49, cache_entries = Map.empty,
      trace = [ReadBlockNumber, GetLogs ''A'' ''PostProof'' 50 60, Handler ex_log,
               GetLogs ''B'' ''PostProof'' 50 60,
               Print (ListenerError ''fuji'' (OtherException ''timeout'')), Sleep 5]\<rparr> \<and>
   fetches (trace (run ''fuji'' ex_contracts
       [ex_env 60 [''B'' \<mapsto> OtherException ''timeout''] None, ex_env 61 Map.empty None] (ex_state 49)))
     = [(''A'', ''PostProof'', 50, 60), (''B'', ''PostProof'', 50, 60),
        (''A'', ''PostProof'', 50, 61), (''B'', ''PostProof'', 50, 61)]"
proof -
  let ?env = "ex_env 60 [''B'' \<mapsto> OtherException ''timeout''] None"
  let ?s1 = "\<lparr>seen_logs = {(''fuji'', ''0xabc'', 2)}, last_block = 49, cache_entries = Map.empty,
      trace = [ReadBlockNumber, GetLogs ''A'' ''PostProof'' 50 60, Handler ex_log]\<rparr>"
  have bn: "block_number ?env = Inr 60" by (simp add: ex_env_def)
  have lt: "last_block (ex_state 49) < 60" by (simp add: ex_state_def)
  have pre: "sweep_contracts ''fuji'' ?env 60 [(''A'', \<lparr>address = ''0x0a'', abi = ''abiA''\<rparr>)]
               (emit ReadBlockNumber (ex_state 49)) = (None, ?s1)"
    by (simp add: step_defs ex_defs)
  have nopr: "last_block ?s1 = last_block (ex_state 49)" by (simp add: ex_state_def)
  have err: "get_logs ?env (''B'', \<lparr>address = ''0x0b'', abi = ''abiB''\<rparr>) ''PostProof''
               (last_block (ex_state 49) + 1) 60 = Inl (OtherException ''timeout'')"
    by (simp add: ex_env_def ex_state_def)
  have exc: "except_value_error (OtherException ''timeout'') = Some (OtherException ''timeout'')" by simp
  have bn2: "block_number (ex_env 61 Map.empty None) = Inr 61" by (simp add: ex_env_def)
  have lt2: "last_block (ex_state 49) < 61" by (simp add: ex_state_def)
  have e1: "[(''A'', \<lparr>address = ''0x0a'', abi = ''abiA''\<rparr>)] @ (''B'', \<lparr>address = ''0x0b'', abi = ''abiB''\<rparr>) # [] = ex_contracts"
    by (simp add: ex_contracts_def)
  have t: "tick ''fuji'' ex_contracts ?env (ex_state 49) =
      emit (Sleep 5) (emit (Print (ListenerError ''fuji'' (OtherException ''timeout'')))
             (emit (GetLogs (fst (''B'', \<lparr>address = ''0x0b'', abi = ''abiB''\<rparr>)) ''PostProof'' (last_block (ex_state 49) + 1) 60) ?s1))"
    using provider_error_keeps_cursor[OF bn lt pre nopr err exc bn2 lt2, of "[]", THEN conjunct1]
    unfolding e1 .
  have f: "fetches (trace (run ''fuji'' ex_contracts [?env, ex_env 61 Map.empty None] (ex_state 49)))
     = [(''A'', ''PostProof'', 50, 60), (''B'', ''PostProof'', 50, 60),
        (''A'', ''PostProof'', 50, 61), (''B'', ''PostProof'', 50, 61)]"
    by (simp add: step_defs ex_defs fetches_def)
  have err': "get_logs ?env (''B'', \<lparr>address = ''0x0b'', abi = ''abiB''\<rparr>) ''PostProof'' 50 60 = Inl (OtherException ''timeout'')"
    by (simp add: ex_env_def)
  from t have "tick ''fuji'' ex_contracts ?env (ex_state 49) =
     \<lparr>seen_logs = {(''fuji'', ''0xabc'', 2)}, last_block = 49, cache_entries = Map.empty,
      trace = [ReadBlockNumber, GetLogs ''A'' ''PostProof'' 50 60, Handler ex_log,
               GetLogs ''B'' ''PostProof'' 50 60,
               Print (ListenerError ''fuji'' (OtherException ''timeout'')), Sleep 5]\<rparr>"
    by (simp add: emit_def ex_state_def)
  with bn lt err' exc f show ?thesis by blast
qed

text \<open>
  C4. When the fetch for a contract fails with a \<open>ValueError\<close> whose first argument is a
  dict with code -32000, the pass goes on: the warning is printed, the cursor is set to
  the height \<open>H\<close>, and the sweep continues with the next contract; every fetch made
  afterwards, in this pass and in all later ones, starts above \<open>H\<close>, so the abandoned
  range is never requested again.
\<close>

theorem pruned_range_skipped:
  assumes bn: "block_number env = Inr H" and lt: "last_block s < H"
    and pre: "sweep_contracts net env H cs1 (emit ReadBlockNumber s) = (None, s1)"
    and pr: "get_logs env c ''PostProof'' (last_block s1 + 1) H = Inl (ValueError (ArgDict (Some (- 32000)) # rest))"
  shows "tick net (cs1 @ c # cs2) env s =
           except_exception net (after_sweep net env H (sweep_contracts net env H cs2
             ((emit (Print (PrunedWarning net H))
                (emit (GetLogs (fst c) ''PostProof'' (last_block s1 + 1) H) s1))\<lparr>last_block := H\<rparr>))) \<and>
         (\<exists>ext. trace (run net (cs1 @ c # cs2) envs (tick net (cs1 @ c # cs2) env s)) =
                  trace s1 @ [GetLogs (fst c) ''PostProof'' (last_block s1 + 1) H, Print (PrunedWarning net H)] @ ext \<and>
                (\<forall>(nm, e, f, t)\<in>set (fetches ext). H < f))"
proof -
  let ?s2 = "(emit (Print (PrunedWarning net H))
                (emit (GetLogs (fst c) ''PostProof'' (last_block s1 + 1) H) s1))\<lparr>last_block := H\<rparr>"
  let ?cs = "cs1 @ c # cs2"
  have ev: "sweep_events net env H c subscribed_events s1 = (None, ?s2)"
    using pr by (simp add: subscribed_events_def)
  have sw: "sweep_contracts net env H ?cs (emit ReadBlockNumber s) = sweep_contracts net env H cs2 ?s2"
    using pre ev by (simp add: sweep_contracts_append)
  have t: "tick net ?cs env s = except_exception net (after_sweep net env H (sweep_contracts net env H cs2 ?s2))"
    using bn lt sw by (simp add: tick_def tick_try_def)
  obtain r3 s3 where s3: "sweep_contracts net env H cs2 ?s2 = (r3, s3)"
    by (cases "sweep_contracts net env H cs2 ?s2")
  obtain r4 s4 where s4: "after_sweep net env H (r3, s3) = (r4, s4)"
    by (cases "after_sweep net env H (r3, s3)")
  have lb2: "last_block ?s2 \<le> H" by (simp add: emit_def)
  from sweep_contracts_sweeps[OF s3] obtain e3 where e3: "sweeps net H ?s2 s3 e3" ..
  have a3: "advances net ?s2 s3 e3" using e3 lb2 by (rule sweeps_advances)
  have lb3: "last_block s3 \<le> H" using e3 lb2 by (rule sweeps_last_block_le)
  from after_sweep_advances[OF s4 lb3] obtain e4 where a4: "advances net s3 s4 e4" ..
  from except_exception_advances[of net s4 r4] obtain e5 where
    a5: "advances net s4 (except_exception net (r4, s4)) e5" ..
  let ?s5 = "except_exception net (r4, s4)"
  from run_advances[of net ?s5 ?cs envs] obtain e6 where a6: "advances net ?s5 (run net ?cs envs ?s5) e6" ..
  from a5 a6 have "advances net s4 (run net ?cs envs ?s5) (e5 @ e6)" by (rule advances_trans)
  with a4 have "advances net s3 (run net ?cs envs ?s5) (e4 @ e5 @ e6)" by (rule advances_trans)
  with a3 have a: "advances net ?s2 (run net ?cs envs ?s5) (e3 @ e4 @ e5 @ e6)" by (rule advances_trans)
  have t5: "tick net ?cs env s = ?s5" using t s3 s4 by simp
  from a have "trace (run net ?cs envs ?s5) = trace ?s2 @ (e3 @ e4 @ e5 @ e6)"
    by (rule advances_trace)
  then have tr: "trace (run net ?cs envs (tick net ?cs env s)) =
      trace s1 @ [GetLogs (fst c) ''PostProof'' (last_block s1 + 1) H, Print (PrunedWarning net H)] @ (e3 @ e4 @ e5 @ e6)"
    using t5 by (simp add: emit_def)
  from a have "\<forall>(nm, e, f, t)\<in>set (fetches (e3 @ e4 @ e5 @ e6)). H < f"
    by (simp add: advances_def emit_def)
  with tr t show ?thesis by blast
qed

text \<open>Registry \<open>A\<close> is pruned at height 60: \<open>B\<close> is fetched next, and later fetches start at 61.\<close>

theorem pruned_range_skipped_witness:
  "block_number (ex_env 60 [''A'' \<mapsto> ex_pruned] None) = Inr 60 \<and>
   last_block (ex_state 49) < 60 \<and>
   get_logs (ex_env 60 [''A'' \<mapsto> ex_pruned] None) (''A'', \<lparr>address = ''0x0a'', abi = ''abiA''\<rparr>) ''PostProof'' 50 60
     = Inl (ValueError [ArgDict (Some (- 32000))]) \<and>
   trace (tick ''fuji'' ex_contracts (ex_env 60 [''A'' \<mapsto> ex_pruned] None) (ex_state 49))
     = [ReadBlockNumber, GetLogs ''A'' ''PostProof'' 50 60, Print (PrunedWarning ''fuji'' 60),
        GetLogs ''B'' ''PostProof'' 61 60, SaveLastBlock ''fuji_all_contracts'' 60, Sleep 3] \<and>
   (\<exists>ext. trace (run ''fuji'' ex_contracts [ex_env 61 Map.empty None]
                  (tick ''fuji'' ex_contracts (ex_env 60 [''A'' \<mapsto> ex_pruned] None) (ex_state 49)))
            = [ReadBlockNumber, GetLogs ''A'' ''PostProof'' 50 60, Print (PrunedWarning ''fuji'' 60)] @ ext \<and>
          (\<forall>(nm, e, f, t)\<in>set (fetches ext). 60 < f))"
proof -
  have bn: "block_number (ex_env 60 [''A'' \<mapsto> ex_pruned] None) = Inr 60" by (simp add: ex_env_def)
  have lt: "last_block (ex_state 49) < 60" by (simp add: ex_state_def)
  have pre: "sweep_contracts ''fuji'' (ex_env 60 [''A'' \<mapsto> ex_pruned] None) 60 []
               (emit ReadBlockNumber (ex_state 49)) = (None, emit ReadBlockNumber (ex_state 49))" by simp
  have pr: "get_logs (ex_env 60 [''A'' \<mapsto> ex_pruned] None) (''A'', \<lparr>address = ''0x0a'', abi = ''abiA''\<rparr>) ''PostProof''
              (last_block (emit ReadBlockNumber (ex_state 49)) + 1) 60 = Inl (ValueError (ArgDict (Some (- 32000)) # []))"
    by (simp add: ex_env_def ex_pruned_def ex_state_def emit_def)
  have tr: "trace (tick ''fuji'' ex_contracts (ex_env 60 [''A'' \<mapsto> ex_pruned] None) (ex_state 49))
     = [ReadBlockNumber, GetLogs ''A'' ''PostProof'' 50 60, Print (PrunedWarning ''fuji'' 60),
        GetLogs ''B'' ''PostProof'' 61 60, SaveLastBlock ''fuji_all_contracts'' 60, Sleep 3]"
    by (simp add: step_defs ex_defs)
  have pr': "get_logs (ex_env 60 [''A'' \<mapsto> ex_pruned] None) (''A'', \<lparr>address = ''0x0a'', abi = ''abiA''\<rparr>) ''PostProof'' 50 60
     = Inl (ValueError [ArgDict (Some (- 32000))])"
    by (simp add: ex_env_def ex_pruned_def)
  have e1: "[] @ (''A'', \<lparr>address = ''0x0a'', abi = ''abiA''\<rparr>) # [(''B'', \<lparr>address = ''0x0b'', abi = ''abiB''\<rparr>)] = ex_contracts"
    by (simp add: ex_contracts_def)
  have e2: "trace (emit ReadBlockNumber (ex_state 49)) @
      [GetLogs (fst (''A'', \<lparr>address = ''0x0a'', abi = ''abiA''\<rparr>)) ''PostProof''
         (last_block (emit ReadBlockNumber (ex_state 49)) + 1) 60, Print (PrunedWarning ''fuji'' 60)] @ ext
     = [ReadBlockNumber, GetLogs ''A'' ''PostProof'' 50 60, Print (PrunedWarning ''fuji'' 60)] @ ext" for ext
    by (simp add: emit_def ex_state_def)
  have "\<exists>ext. trace (run ''fuji'' ex_contracts [ex_env 61 Map.empty None]
                  (tick ''fuji'' ex_contracts (ex_env 60 [''A'' \<mapsto> ex_pruned] None) (ex_state 49)))
            = [ReadBlockNumber, GetLogs ''A'' ''PostProof'' 50 60, Print (PrunedWarning ''fuji'' 60)] @ ext \<and>
          (\<forall>(nm, e, f, t)\<in>set (fetches ext). 60 < f)"
    using pruned_range_skipped[OF bn lt pre pr, of "[(''B'', \<lparr>address = ''0x0b'', abi = ''abiB''\<rparr>)]" "[ex_env 61 Map.empty None]", THEN conjunct2]
    unfolding e1 e2 .
  with bn lt pr' tr show ?thesis by blast
qed




text \<open>
  C6, as stated, fails: the cache holds 41 for the key, saving 42 fails, and a later load
  with default 99 returns 41, not the default.
\<close>

theorem failed_save_load_counterexample:
  "save_last_block ''fuji_all_contracts'' 42
       \<lparr>entries = [''fuji_all_contracts'' \<mapsto> ''41''], get_fault = None, set_fault = Some (OtherException ''down'')\<rparr>
     = Inr (\<lparr>entries = [''fuji_all_contracts'' \<mapsto> ''41''], get_fault = None, set_fault = Some (OtherException ''down'')\<rparr>,
            [SaveFailed ''fuji_all_contracts'' (OtherException ''down'')]) \<and>
   load_last_block decimal_int ''fuji_all_contracts'' 99
       \<lparr>entries = [''fuji_all_contracts'' \<mapsto> ''41''], get_fault = None, set_fault = None\<rparr>
     = Inr 41"
  by (simp add: save_last_block_def cache_set_def load_last_block_def load_try_def cache_get_def decimal_int_41)

text \<open>
  C6, amended. Whatever \<open>int\<close> answers (\<open>to_int\<close>), \<open>load_last_block\<close> never raises:
  it returns the integer \<open>int\<close> makes of the stored value when the lookup succeeds and
  \<open>int\<close> does not raise, and the default otherwise. \<open>save_last_block\<close> never raises: a
  failing write is printed and swallowed, and it leaves the cache as it was, so a later
  load (whatever the cache's faults then) returns what the entries held before the failed
  save: the stored integer if there is one, and the default otherwise.
\<close>

theorem cursor_store_never_raises:
  "(\<exists>n. load_last_block to_int key d c = Inr n) \<and>
   (get_fault c = None \<and> entries c key = Some v \<and> to_int v = Inr n \<longrightarrow> load_last_block to_int key d c = Inr n) \<and>
   (get_fault c \<noteq> None \<or> entries c key = None \<or> (\<exists>v e. entries c key = Some v \<and> to_int v = Inl e)
      \<longrightarrow> load_last_block to_int key d c = Inr d) \<and>
   (\<exists>c' msgs. save_last_block key b c = Inr (c', msgs)) \<and>
   (set_fault c = Some e \<longrightarrow>
      save_last_block key b c = Inr (c, [SaveFailed key e]) \<and>
      (\<forall>g f. load_last_block to_int key d (c\<lparr>get_fault := g, set_fault := f\<rparr>) =
         (case g of
            Some x \<Rightarrow> Inr d
          | None \<Rightarrow> (case entries c key of
                       None \<Rightarrow> Inr d
                     | Some v \<Rightarrow> (case to_int v of Inl x \<Rightarrow> Inr d | Inr n \<Rightarrow> Inr n)))))"
  by (auto simp: load_last_block_def load_try_def cache_get_def save_last_block_def cache_set_def
      split: option.splits sum.splits)

text \<open>Loads with and without a stored cursor, and a load after a failed save on an empty cache.\<close>

theorem cursor_store_never_raises_witness:
  "load_last_block decimal_int ''fuji_all_contracts'' 99
       \<lparr>entries = [''fuji_all_contracts'' \<mapsto> ''41''], get_fault = None, set_fault = None\<rparr> = Inr 41 \<and>
   load_last_block decimal_int ''fuji_all_contracts'' 99 ex_cache = Inr 99 \<and>
   save_last_block ''fuji_all_contracts'' 42 (ex_cache\<lparr>set_fault := Some (OtherException ''down'')\<rparr>)
     = Inr (ex_cache\<lparr>set_fault := Some (OtherException ''down'')\<rparr>,
            [SaveFailed ''fuji_all_contracts'' (OtherException ''down'')]) \<and>
   load_last_block decimal_int ''fuji_all_contracts'' 99
     (ex_cache\<lparr>set_fault := Some (OtherException ''down''), get_fault := None, set_fault := None\<rparr>) = Inr 99"
  using cursor_store_never_raises[of decimal_int "''fuji_all_contracts''" 99
      "\<lparr>entries = [''fuji_all_contracts'' \<mapsto> ''41''], get_fault = None, set_fault = None\<rparr>" "''41''" 41 42
      "OtherException ''down''"]
    cursor_store_never_raises[of decimal_int "''fuji_all_contracts''" 99 ex_cache "''41''" 41 42 "OtherException ''down''"]
    cursor_store_never_raises[of decimal_int "''fuji_all_contracts''" 99
      "ex_cache\<lparr>set_fault := Some (OtherException ''down'')\<rparr>" "''41''" 41 42 "OtherException ''down''"]
  by (simp add: ex_cache_def decimal_int_41)

text \<open>
  C7. When the cache holds no cursor for the network (the lookup raises, the key is
  absent, or \<open>int\<close> raises on the stored value), \<open>load_last_block\<close> returns the height
  minus 1 and the listener starts with that cursor.
\<close>

theorem initial_cursor_default:
  assumes "get_fault c \<noteq> None \<or> entries c (last_block_key net) = None \<or>
           (\<exists>v e. entries c (last_block_key net) = Some v \<and> to_int v = Inl e)"
    and "prepare_contracts rc am = Inr cs"
  shows "load_last_block to_int (last_block_key net) (h - 1) c = Inr (h - 1) \<and>
         (\<exists>s. listener_start to_int net (Inr h) rc am c = Inr (cs, s) \<and> last_block s = h - 1 \<and> seen_logs s = {})"
proof -
  from assms(1) have "load_last_block to_int (last_block_key net) (h - 1) c = Inr (h - 1)"
    by (auto simp: load_last_block_def load_try_def cache_get_def split: option.splits sum.splits)
  with assms(2) show ?thesis by (simp add: listener_start_def)
qed

text \<open>
  Height 100: the initial cursor is 99 when the cursor is absent, and when the cache holds
  the string \<open>latest\<close>, on which \<open>int\<close> raises.
\<close>

theorem initial_cursor_default_witness:
  "entries ex_cache (last_block_key ''fuji'') = None \<and>
   prepare_contracts ex_registry ex_abis = Inr ex_contracts \<and>
   load_last_block decimal_int (last_block_key ''fuji'') 99 ex_cache = Inr 99 \<and>
   (\<exists>s. listener_start decimal_int ''fuji'' (Inr 100) ex_registry ex_abis ex_cache = Inr (ex_contracts, s) \<and>
        last_block s = 99 \<and> seen_logs s = {}) \<and>
   decimal_int ''latest'' = Inl (ValueError [ArgOther]) \<and>
   (\<exists>s. listener_start decimal_int ''fuji'' (Inr 100) ex_registry ex_abis
          (ex_cache\<lparr>entries := [''fuji_all_contracts'' \<mapsto> ''latest'']\<rparr>) = Inr (ex_contracts, s) \<and>
        last_block s = 99 \<and> seen_logs s = {})"
proof -
  let ?c = "ex_cache\<lparr>entries := [''fuji_all_contracts'' \<mapsto> ''latest'']\<rparr>"
  have a: "get_fault ex_cache \<noteq> None \<or> entries ex_cache (last_block_key ''fuji'') = None \<or>
           (\<exists>v e. entries ex_cache (last_block_key ''fuji'') = Some v \<and> decimal_int v = Inl e)"
    by (simp add: ex_cache_def)
  have b: "prepare_contracts ex_registry ex_abis = Inr ex_contracts"
    by (simp add: ex_registry_def ex_abis_def ex_contracts_def)
  have d: "decimal_int ''latest'' = Inl (ValueError [ArgOther])"
    by (simp add: decimal_int_def strip_def is_space_def unsigned_int_def digit_of_def)
  have a': "get_fault ?c \<noteq> None \<or> entries ?c (last_block_key ''fuji'') = None \<or>
           (\<exists>v e. entries ?c (last_block_key ''fuji'') = Some v \<and> decimal_int v = Inl e)"
    using d by (simp add: last_block_key_def)
  from initial_cursor_default[OF a b, of 100] initial_cursor_default[OF a' b, of 100] b d show ?thesis
    by (simp add: ex_cache_def)
qed

text \<open>
  C8. A pass that reads a height not above the cursor reads the height and sleeps, and
  does nothing else: no fetch, no handler, no save, and \<open>seen_logs\<close>, the cursor and
  the cache are as before.
\<close>

theorem no_new_blocks_tick:
  assumes "block_number env = Inr H" and "H \<le> last_block s"
  shows "tick net cs env s = s\<lparr>trace := trace s @ [ReadBlockNumber, Sleep 3]\<rparr>"
  using assms by (simp add: tick_def tick_try_def emit_def)

text \<open>Height 100 with the cursor at 100.\<close>

theorem no_new_blocks_tick_witness:
  "block_number (ex_env 100 Map.empty None) = Inr 100 \<and> (100::int) \<le> last_block (ex_state 100) \<and>
   tick ''fuji'' ex_contracts (ex_env 100 Map.empty None) (ex_state 100)
     = \<lparr>seen_logs = {}, last_block = 100, cache_entries = Map.empty, trace = [ReadBlockNumber, Sleep 3]\<rparr>"
proof -
  have a: "block_number (ex_env 100 Map.empty None) = Inr 100" by (simp add: ex_env_def)
  have b: "(100::int) \<le> last_block (ex_state 100)" by (simp add: ex_state_def)
  from no_new_blocks_tick[OF a b, of "''fuji''" ex_contracts] a b show ?thesis
    by (simp add: ex_state_def)
qed

text \<open>
  C9, as stated, fails: when \<open>cache.set\<close> raises, \<open>reset_last_block\<close> raises the
  exception to its caller, while \<open>save_last_block\<close> prints it and returns.
\<close>

theorem reset_propagates_counterexample:
  "reset_last_block ''fuji_all_contracts'' 42 (ex_cache\<lparr>set_fault := Some (OtherException ''down'')\<rparr>)
     = Inl (OtherException ''down'') \<and>
   save_last_block ''fuji_all_contracts'' 42 (ex_cache\<lparr>set_fault := Some (OtherException ''down'')\<rparr>)
     = Inr (ex_cache\<lparr>set_fault := Some (OtherException ''down'')\<rparr>,
            [SaveFailed ''fuji_all_contracts'' (OtherException ''down'')])"
  by (simp add: reset_last_block_def save_last_block_def cache_set_def ex_cache_def)

text \<open>
  C9, amended. \<open>reset_last_block\<close> and \<open>save_last_block\<close> make the same call
  \<open>cache.set(key, str(value))\<close>: when it succeeds both leave the same cache; when it
  raises neither changes the cache, \<open>reset_last_block\<close> propagates the exception and
  \<open>save_last_block\<close> prints it.
\<close>

theorem reset_same_write:
  "(set_fault c = None \<longrightarrow>
      reset_last_block key v c = Inr (c\<lparr>entries := (entries c)(key \<mapsto> py_str v)\<rparr>) \<and>
      save_last_block key v c = Inr (c\<lparr>entries := (entries c)(key \<mapsto> py_str v)\<rparr>, [])) \<and>
   (set_fault c = Some e \<longrightarrow>
      reset_last_block key v c = Inl e \<and>
      save_last_block key v c = Inr (c, [SaveFailed key e]))"
  by (simp add: reset_last_block_def save_last_block_def cache_set_def)

text \<open>Writing 42 to a working cache, and to one whose \<open>set\<close> raises.\<close>

theorem reset_same_write_witness:
  "set_fault ex_cache = None \<and>
   reset_last_block ''fuji_all_contracts'' 42 ex_cache
     = Inr \<lparr>entries = [''fuji_all_contracts'' \<mapsto> ''42''], get_fault = None, set_fault = None\<rparr> \<and>
   save_last_block ''fuji_all_contracts'' 42 ex_cache
     = Inr (\<lparr>entries = [''fuji_all_contracts'' \<mapsto> ''42''], get_fault = None, set_fault = None\<rparr>, []) \<and>
   set_fault (ex_cache\<lparr>set_fault := Some (OtherException ''down'')\<rparr>) = Some (OtherException ''down'') \<and>
   reset_last_block ''fuji_all_contracts'' 42 (ex_cache\<lparr>set_fault := Some (OtherException ''down'')\<rparr>)
     = Inl (OtherException ''down'')"
  using reset_same_write[of ex_cache "''fuji_all_contracts''" 42 "OtherException ''down''"]
    reset_same_write[of "ex_cache\<lparr>set_fault := Some (OtherException ''down'')\<rparr>" "''fuji_all_contracts''" 42 "OtherException ''down''"]
  by (simp add: ex_cache_def py_str_42)

text \<open>
  C10. The key of a log is added to \<open>seen_logs\<close> before its handler runs: when the
  handler raises on a log not seen before, the loop over the logs ends with the key in
  \<open>seen_logs\<close>. And once the handler has been invoked on a log in a run, then after any
  further passes the key is still in \<open>seen_logs\<close> and the handler has been invoked
  exactly once for it: a failed dispatch is not retried.
\<close>

theorem failed_dispatch_suppressed:
  "(log_key net ev \<notin> seen_logs s \<and> h ev = Some e \<longrightarrow>
      dispatch_logs net h (ev # logs) s =
        (Some e, emit (Handler ev) (s\<lparr>seen_logs := insert (log_key net ev) (seen_logs s)\<rparr>))) \<and>
   (network_validator_listener to_int net height rc am c envs1 = Inr s1 \<and> Handler ev \<in> set (trace s1) \<longrightarrow>
      (\<exists>s2. network_validator_listener to_int net height rc am c (envs1 @ envs2) = Inr s2 \<and>
            log_key net ev \<in> seen_logs s2 \<and>
            count_list (handled_keys net (trace s2)) (log_key net ev) = 1))"
proof -
  have "\<exists>s2. network_validator_listener to_int net height rc am c (envs1 @ envs2) = Inr s2 \<and>
            log_key net ev \<in> seen_logs s2 \<and>
            count_list (handled_keys net (trace s2)) (log_key net ev) = 1"
    if l1: "network_validator_listener to_int net height rc am c envs1 = Inr s1"
      and h: "Handler ev \<in> set (trace s1)"
  proof -
    from listener_append[OF l1, of envs2] obtain cs where
      l2: "network_validator_listener to_int net height rc am c (envs1 @ envs2) = Inr (run net cs envs2 s1)" ..
    let ?s2 = "run net cs envs2 s1"
    from run_advances[of net s1 cs envs2] obtain ext where "extends net s1 ?s2 ext"
      by (auto simp: advances_def)
    then have tr: "trace ?s2 = trace s1 @ ext" by (simp add: extends_def)
    with h have "Handler ev \<in> set (trace ?s2)" by simp
    then have k: "log_key net ev \<in> set (handled_keys net (trace ?s2))" by (rule handler_in_keys)
    from listener_dedup[OF l2] have d: "distinct (handled_keys net (trace ?s2))"
      and sub: "set (handled_keys net (trace ?s2)) \<subseteq> seen_logs ?s2" by simp_all
    from d k have "count_list (handled_keys net (trace ?s2)) (log_key net ev) = 1"
      by (rule distinct_count_list_eq)
    with l2 k sub show ?thesis by blast
  qed
  then show ?thesis by simp
qed

text \<open>
  The handler raises on the log of block 50 in the first pass; the second pass fetches
  the same blocks again and does not invoke it.
\<close>

theorem failed_dispatch_suppressed_witness:
  "log_key ''fuji'' ex_log \<notin> seen_logs (ex_state 49) \<and>
   dispatch_logs ''fuji'' (\<lambda>ev. Some (OtherException ''db'')) [ex_log] (ex_state 49)
     = (Some (OtherException ''db''),
        \<lparr>seen_logs = {(''fuji'', ''0xabc'', 2)}, last_block = 49, cache_entries = Map.empty,
         trace = [Handler ex_log]\<rparr>) \<and>
   Handler ex_log \<in> set (trace (run ''fuji'' ex_contracts [ex_env 60 Map.empty (Some (OtherException ''db''))]
       \<lparr>seen_logs = {}, last_block = 49, cache_entries = Map.empty,
        trace = [Print (Listening ''fuji'' (length ex_contracts) 50)]\<rparr>)) \<and>
   (\<exists>s2. network_validator_listener decimal_int ''fuji'' (Inr 50) ex_registry ex_abis ex_cache
           [ex_env 60 Map.empty (Some (OtherException ''db'')), ex_env 61 Map.empty None] = Inr s2 \<and>
         fetches (trace s2) = [(''A'', ''PostProof'', 50, 60), (''A'', ''PostProof'', 50, 61), (''B'', ''PostProof'', 50, 61)] \<and>
         (''fuji'', ''0xabc'', 2) \<in> seen_logs s2 \<and>
         count_list (handled_keys ''fuji'' (trace s2)) (''fuji'', ''0xabc'', 2) = 1)"
proof -
  let ?s0 = "\<lparr>seen_logs = {}, last_block = 49, cache_entries = Map.empty,
        trace = [Print (Listening ''fuji'' (length ex_contracts) 50)]\<rparr>"
  have a: "log_key ''fuji'' ex_log \<notin> seen_logs (ex_state 49) \<and> (\<lambda>ev. Some (OtherException ''db'')) ex_log = Some (OtherException ''db'')"
    by (simp add: ex_state_def)
  have l1: "network_validator_listener decimal_int ''fuji'' (Inr 50) ex_registry ex_abis ex_cache
           [ex_env 60 Map.empty (Some (OtherException ''db''))]
       = Inr (run ''fuji'' ex_contracts [ex_env 60 Map.empty (Some (OtherException ''db''))] ?s0)"
    by (simp add: network_validator_listener_def listener_start_def load_last_block_def load_try_def
        cache_get_def ex_cache_def ex_registry_def ex_abis_def ex_contracts_def)
  have h: "Handler ex_log \<in> set (trace (run ''fuji'' ex_contracts [ex_env 60 Map.empty (Some (OtherException ''db''))] ?s0))"
    by (simp add: step_defs ex_defs)
  have f: "\<And>s2. network_validator_listener decimal_int ''fuji'' (Inr 50) ex_registry ex_abis ex_cache
           [ex_env 60 Map.empty (Some (OtherException ''db'')), ex_env 61 Map.empty None] = Inr s2 \<Longrightarrow>
         fetches (trace s2) = [(''A'', ''PostProof'', 50, 60), (''A'', ''PostProof'', 50, 61), (''B'', ''PostProof'', 50, 61)]"
    by (auto simp: network_validator_listener_def listener_start_def load_last_block_def load_try_def
        cache_get_def step_defs ex_defs fetches_def)
  from failed_dispatch_suppressed[of "''fuji''" ex_log "ex_state 49" "\<lambda>ev. Some (OtherException ''db'')"
      "OtherException ''db''" "[]" decimal_int "Inr 50" ex_registry ex_abis ex_cache
      "[ex_env 60 Map.empty (Some (OtherException ''db''))]"
      "run ''fuji'' ex_contracts [ex_env 60 Map.empty (Some (OtherException ''db''))] ?s0"
      "[ex_env 61 Map.empty None]"] a l1 h f
  show ?thesis
    by (auto simp: ex_state_def emit_def log_key_def ex_log_def)
qed

end
